theory Spec2Isabelle
  imports Complex_Main
begin

section \<open>The streaming detector of \<^verbatim>\<open>Data_Detection.py\<close>\<close>

text \<open>
  The function \<^verbatim>\<open>anomaly_detection(data, alpha, z_value)\<close> (lines 25-47) seeds a list
  \<^verbatim>\<open>data_stream\<close> with \<^verbatim>\<open>data[0]\<close>, then walks the indices \<^verbatim>\<open>1 .. len(data) - 1\<close>,
  appending an exponentially weighted moving average and recording the pair
  \<^verbatim>\<open>(i, data[i])\<close> whenever the sample is further than \<^verbatim>\<open>z_value\<close> from the average
  just appended.

  Its inputs are as its docstring says: \<^verbatim>\<open>data\<close> a one-dimensional array of floats,
  \<^verbatim>\<open>alpha\<close> and \<^verbatim>\<open>z_value\<close> floats. A Python float and a numpy \<^verbatim>\<open>float64\<close> are IEEE 754
  binary64 numbers, and every product, sum and difference of lines 40 and 42 is rounded to
  one, so the arithmetic is modelled as such and not over the reals. Loop indices are
  natural numbers: \<^verbatim>\<open>range(1, len(data))\<close> never yields a negative one. The signal
  generator and the two plotting functions of the file are not modelled.
\<close>

section \<open>Binary64 arithmetic\<close>

subsection \<open>Values\<close>

text \<open>
  A double is a finite number, one of the two infinities, or NaN. Three things are
  abstracted, none of which the function can observe: the two zeros are one value
  (\<^verbatim>\<open>0.0 == -0.0\<close> in Python, and the function never divides), all NaNs are one value, and
  a finite double is carried as the real number it denotes. Not every real is a double;
  \<open>is_double\<close> below says which are.
\<close>

datatype double = Finite real | PInf | NInf | NaN

subsection \<open>Rounding to nearest, ties to even\<close>

text \<open>
  \<open>bit_length n\<close> is the number of binary digits of a positive integer, so
  \<open>floor_log2 r\<close> is the exponent \<open>k\<close> with \<open>2^k \<le> r < 2^(k+1)\<close> of a positive real
  (lemma \<open>floor_log2_bounds\<close>).
\<close>

function bit_length :: "int \<Rightarrow> int" where
  "bit_length n = (if n \<le> 0 then 0 else 1 + bit_length (n div 2))"
  by pat_completeness auto
termination
  by (relation "measure nat") auto

declare bit_length.simps [simp del]

definition floor_log2 :: "real \<Rightarrow> int" where
  "floor_log2 r =
     (if 1 \<le> r then bit_length \<lfloor>r\<rfloor> - 1
      else - bit_length (\<lceil>1 / r\<rceil> - 1))"

definition round_half_even :: "real \<Rightarrow> int" where
  "round_half_even x =
     (let f = \<lfloor>x\<rfloor>; d = x - of_int f
      in if d < 1 / 2 then f else if 1 / 2 < d then f + 1 else if even f then f else f + 1)"

text \<open>
  \<open>rnd r\<close> is the double nearest to the real \<open>r\<close>. Doubles near \<open>r\<close> are the integer
  multiples of \<open>2^q\<close>, where \<open>q\<close> is 52 below the exponent of \<open>r\<close>, and never below
  \<open>-1074\<close> (the subnormal range). The nearest multiple is taken, the even one at a tie;
  a result of magnitude \<open>2^1024\<close> or more is an infinity.
\<close>

definition rnd :: "real \<Rightarrow> double" where
  "rnd r =
     (if r = 0 then Finite 0
      else
        (let q = max (floor_log2 \<bar>r\<bar> - 52) (- 1074);
             v = of_int (round_half_even (r / 2 powi q)) * 2 powi q
         in if 2 ^ 1024 \<le> \<bar>v\<bar> then (if 0 < r then PInf else NInf) else Finite v))"

text \<open>A finite value is a double when rounding leaves it unchanged (see \<open>is_double_iff\<close>).\<close>

fun is_double :: "double \<Rightarrow> bool" where
  "is_double (Finite a) = (rnd a = Finite a)"
| "is_double x = False"

subsection \<open>Operations\<close>

text \<open>
  Negation, addition, subtraction, multiplication and absolute value of IEEE 754:
  NaN propagates, \<open>\<infinity> - \<infinity>\<close> and \<open>0 * \<infinity>\<close> are NaN, and a finite result is rounded.
  Overflow gives an infinity; neither Python nor numpy raises on it (numpy warns).
\<close>

fun fneg :: "double \<Rightarrow> double" where
  "fneg (Finite a) = Finite (- a)"
| "fneg PInf = NInf"
| "fneg NInf = PInf"
| "fneg NaN = NaN"

fun fadd :: "double \<Rightarrow> double \<Rightarrow> double" where
  "fadd NaN y = NaN"
| "fadd x NaN = NaN"
| "fadd PInf NInf = NaN"
| "fadd NInf PInf = NaN"
| "fadd PInf y = PInf"
| "fadd x PInf = PInf"
| "fadd NInf y = NInf"
| "fadd x NInf = NInf"
| "fadd (Finite a) (Finite b) = rnd (a + b)"

definition fsub :: "double \<Rightarrow> double \<Rightarrow> double" where
  "fsub x y = fadd x (fneg y)"

fun fsign :: "double \<Rightarrow> int" where
  "fsign (Finite a) = (if 0 < a then 1 else if a < 0 then - 1 else 0)"
| "fsign PInf = 1"
| "fsign NInf = - 1"
| "fsign NaN = 0"

fun fmul :: "double \<Rightarrow> double \<Rightarrow> double" where
  "fmul NaN y = NaN"
| "fmul x NaN = NaN"
| "fmul (Finite a) (Finite b) = rnd (a * b)"
| "fmul x y =
     (if fsign x * fsign y = 0 then NaN else if 0 < fsign x * fsign y then PInf else NInf)"

fun fabs :: "double \<Rightarrow> double" where
  "fabs (Finite a) = Finite \<bar>a\<bar>"
| "fabs PInf = PInf"
| "fabs NInf = PInf"
| "fabs NaN = NaN"

text \<open>The comparisons \<^verbatim>\<open>>\<close> and \<^verbatim>\<open><=\<close>: false whenever an operand is NaN.\<close>

fun fgt :: "double \<Rightarrow> double \<Rightarrow> bool" where
  "fgt NaN y = False"
| "fgt x NaN = False"
| "fgt NInf y = False"
| "fgt x PInf = False"
| "fgt PInf y = True"
| "fgt x NInf = True"
| "fgt (Finite a) (Finite b) = (b < a)"

definition fle :: "double \<Rightarrow> double \<Rightarrow> bool" where
  "fle x y \<longleftrightarrow> x \<noteq> NaN \<and> y \<noteq> NaN \<and> \<not> fgt x y"

text \<open>
  Used only to evaluate \<open>rnd\<close> on numerals: \<open>is_pow2 b\<close> holds of the powers of two
  up to \<open>2^1074\<close>.
\<close>

definition is_pow2 :: "int \<Rightarrow> bool" where
  "is_pow2 b \<longleftrightarrow> b = 2 ^ nat (bit_length b - 1) \<and> bit_length b \<le> 1075"

section \<open>The function\<close>

subsection \<open>Errors and indexing\<close>

text \<open>
  Subscripting a Python list or a one-dimensional array with an integer raises
  \<^verbatim>\<open>IndexError\<close> outside \<^verbatim>\<open>-len .. len - 1\<close>; a negative subscript counts from the end.
  The function subscripts in three places: \<^verbatim>\<open>data[0]\<close> (line 36), \<^verbatim>\<open>data[i]\<close> and
  \<^verbatim>\<open>data_stream[-1]\<close> (line 40). It has no \<^verbatim>\<open>raise\<close> statement and no check of its
  arguments. \<open>InvalidInput\<close> is the error kind the specification names; it is in the
  type so that the two can be told apart, and nothing below produces it.
\<close>

datatype py_error = IndexError | InvalidInput

definition getitem :: "'a list \<Rightarrow> int \<Rightarrow> py_error + 'a" where
  "getitem xs k =
     (if 0 \<le> k \<and> k < int (length xs) then Inr (xs ! nat k)
      else if k < 0 \<and> - int (length xs) \<le> k then Inr (xs ! nat (int (length xs) + k))
      else Inl IndexError)"

subsection \<open>The local variables of the loop\<close>

record loop_state =
  data_stream :: "double list"
  anomalies :: "(nat \<times> double) list"

subsection \<open>The loop body (lines 40-45)\<close>

text \<open>
  \<^verbatim>\<open>moving_average = alpha * data[i] + (1 - alpha) * data_stream[-1]\<close>, appended to
  \<^verbatim>\<open>data_stream\<close>; then \<^verbatim>\<open>deviation = data[i] - moving_average\<close>, and the pair
  \<^verbatim>\<open>(i, data[i])\<close> is appended to \<^verbatim>\<open>anomalies\<close> when \<^verbatim>\<open>np.abs(deviation) > z_value\<close>.
  The integer \<^verbatim>\<open>1\<close> of \<^verbatim>\<open>1 - alpha\<close> becomes the double \<open>1\<close>.
\<close>

definition loop_body ::
  "double list \<Rightarrow> double \<Rightarrow> double \<Rightarrow> nat \<Rightarrow> loop_state \<Rightarrow> py_error + loop_state" where
  "loop_body data alpha z_value i s =
     (case getitem data (int i) of
        Inl e \<Rightarrow> Inl e
      | Inr data_i \<Rightarrow>
          (case getitem (data_stream s) (- 1) of
             Inl e \<Rightarrow> Inl e
           | Inr prev \<Rightarrow>
               (let moving_average = fadd (fmul alpha data_i) (fmul (fsub (Finite 1) alpha) prev);
                    s1 = s\<lparr>data_stream := data_stream s @ [moving_average]\<rparr>;
                    deviation = fsub data_i moving_average
                in if fgt (fabs deviation) z_value
                   then Inr (s1\<lparr>anomalies := anomalies s1 @ [(i, data_i)]\<rparr>)
                   else Inr s1)))"

subsection \<open>The for loop\<close>

text \<open>A \<^verbatim>\<open>for\<close> loop over a list of indices; an exception in the body ends it.\<close>

fun for_loop :: "(nat \<Rightarrow> 's \<Rightarrow> py_error + 's) \<Rightarrow> nat list \<Rightarrow> 's \<Rightarrow> py_error + 's" where
  "for_loop body [] s = Inr s"
| "for_loop body (i # rest) s =
     (case body i s of Inl e \<Rightarrow> Inl e | Inr s' \<Rightarrow> for_loop body rest s')"

subsection \<open>The function (lines 36-47)\<close>

definition anomaly_detection ::
  "double list \<Rightarrow> double \<Rightarrow> double \<Rightarrow> py_error + (double list \<times> (nat \<times> double) list)" where
  "anomaly_detection data alpha z_value =
     (case getitem data 0 of
        Inl e \<Rightarrow> Inl e
      | Inr d0 \<Rightarrow>
          (case for_loop (loop_body data alpha z_value) [1..<length data]
                  \<lparr>data_stream = [d0], anomalies = []\<rparr> of
             Inl e \<Rightarrow> Inl e
           | Inr s \<Rightarrow> Inr (data_stream s, anomalies s)))"

subsection \<open>The recurrence of the specification\<close>

text \<open>
  The specification describes the outputs index by index: the trend is seeded with the
  first sample and follows a first-order recurrence, and an index is flagged when the
  sample is further than the threshold from the trend value of the same index. These
  two definitions follow that description, in binary64 arithmetic; the loop above is
  compared against them.
\<close>

primrec spec_trend :: "double list \<Rightarrow> double \<Rightarrow> nat \<Rightarrow> double" where
  "spec_trend data alpha 0 = data ! 0"
| "spec_trend data alpha (Suc i) =
     fadd (fmul alpha (data ! Suc i)) (fmul (fsub (Finite 1) alpha) (spec_trend data alpha i))"

definition spec_flagged :: "double list \<Rightarrow> double \<Rightarrow> double \<Rightarrow> nat \<Rightarrow> bool" where
  "spec_flagged data alpha z_value i \<longleftrightarrow>
     fgt (fabs (fsub (data ! i) (spec_trend data alpha i))) z_value"

section \<open>Properties of rounding\<close>

subsection \<open>The exponent\<close>

lemma bit_length_nonneg: "0 \<le> bit_length n"
proof (induction n rule: bit_length.induct)
  case (1 n)
  then show ?case
    by (cases "n \<le> 0") (simp_all add: bit_length.simps [of n])
qed

lemma bit_length_pos: "0 < n \<Longrightarrow> 1 \<le> bit_length n"
  using bit_length_nonneg [of "n div 2"] by (simp add: bit_length.simps [of n])

lemma bit_length_bounds:
  "0 < n \<Longrightarrow> 2 ^ nat (bit_length n - 1) \<le> n \<and> n < 2 ^ nat (bit_length n)"
proof (induction n rule: bit_length.induct)
  case (1 n)
  show ?case
  proof (cases "0 < n div 2")
    case False
    with "1.prems" have "n = 1" by auto
    then show ?thesis by (simp add: bit_length.simps [of 1] bit_length.simps [of 0])
  next
    case True
    let ?m = "n div 2" and ?b = "bit_length (n div 2)"
    from "1.prems" have "\<not> n \<le> 0" by simp
    from "1.IH" [OF this True] have lo: "2 ^ nat (?b - 1) \<le> ?m" and hi: "?m < 2 ^ nat ?b"
      by simp_all
    from bit_length_pos [OF True] have b: "1 \<le> ?b" .
    have bn: "bit_length n = ?b + 1"
      using "1.prems" by (simp add: bit_length.simps [of n])
    from b have p1: "(2::int) ^ nat ?b = 2 * 2 ^ nat (?b - 1)"
      by (metis Suc_nat_eq_nat_zadd1 diff_add_cancel diff_ge_0_iff_ge power_Suc add.commute)
    from b have p2: "(2::int) ^ nat (?b + 1) = 2 * 2 ^ nat ?b"
      by (simp add: nat_add_distrib)
    have "2 * ?m \<le> n" by simp
    with lo p1 have l: "2 ^ nat ?b \<le> n" by linarith
    have "n < 2 * (?m + 1)" by presburger
    with hi p2 have h: "n < 2 ^ nat (?b + 1)" by linarith
    from l h show ?thesis by (simp add: bn)
  qed
qed

lemma floor_log2_ge1:
  assumes "1 \<le> r"
  shows "2 powi floor_log2 r \<le> r \<and> r < 2 powi (floor_log2 r + 1)"
proof -
  let ?n = "\<lfloor>r\<rfloor>" and ?b = "bit_length \<lfloor>r\<rfloor>"
  from assms have n: "0 < ?n" by simp
  from bit_length_pos [OF n] have b: "1 \<le> ?b" .
  from bit_length_bounds [OF n] have lo: "2 ^ nat (?b - 1) \<le> ?n" and hi: "?n < 2 ^ nat ?b"
    by simp_all
  have fl: "floor_log2 r = ?b - 1" using assms by (simp add: floor_log2_def)
  have "(2::real) powi (?b - 1) = of_int (2 ^ nat (?b - 1))"
    using b by (simp add: power_int_nonneg_exp)
  also have "\<dots> \<le> of_int ?n" using lo by (simp only: of_int_le_iff)
  also have "\<dots> \<le> r" by simp
  finally have l: "2 powi (?b - 1) \<le> r" .
  from hi have "?n + 1 \<le> 2 ^ nat ?b" by simp
  then have "of_int (?n + 1) \<le> (of_int (2 ^ nat ?b) :: real)" by (simp only: of_int_le_iff)
  also have "(of_int (2 ^ nat ?b) :: real) = 2 powi ?b"
    using b by (simp add: power_int_nonneg_exp)
  finally have "of_int (?n + 1) \<le> (2::real) powi ?b" .
  moreover have "r < of_int (?n + 1)" by linarith
  ultimately have h: "r < 2 powi ?b" by linarith
  from l h show ?thesis by (simp add: fl)
qed

lemma floor_log2_lt1:
  assumes "0 < r" and "r < 1"
  shows "2 powi floor_log2 r \<le> r \<and> r < 2 powi (floor_log2 r + 1)"
proof -
  let ?y = "1 / r"
  let ?c = "\<lceil>?y\<rceil>"
  let ?k = "bit_length (?c - 1)"
  from assms have y: "1 < ?y" by simp
  then have c: "0 < ?c - 1" by linarith
  from bit_length_pos [OF c] have k: "1 \<le> ?k" .
  from bit_length_bounds [OF c] have lo: "2 ^ nat (?k - 1) \<le> ?c - 1" and hi: "?c - 1 < 2 ^ nat ?k"
    by simp_all
  have fl: "floor_log2 r = - ?k" using assms by (simp add: floor_log2_def)
  have pk: "(2::real) powi ?k = of_int (2 ^ nat ?k)"
    using k by (simp add: power_int_nonneg_exp)
  have pk1: "(2::real) powi (?k - 1) = of_int (2 ^ nat (?k - 1))"
    using k by (simp add: power_int_nonneg_exp)
  from hi have "?c \<le> 2 ^ nat ?k" by simp
  then have "of_int ?c \<le> (of_int (2 ^ nat ?k) :: real)" by (simp only: of_int_le_iff)
  moreover have "?y \<le> of_int ?c" by simp
  ultimately have yk: "?y \<le> 2 powi ?k" by (simp only: pk)
  have "(of_int (2 ^ nat (?k - 1)) :: real) \<le> of_int (?c - 1)"
    using lo by (simp only: of_int_le_iff)
  moreover have "of_int (?c - 1) < ?y" by linarith
  ultimately have yk1: "2 powi (?k - 1) < ?y" by (simp only: pk1)
  have pos: "(0::real) < 2 powi ?k" "(0::real) < 2 powi (?k - 1)" by simp_all
  from yk pos assms have l: "2 powi (- ?k) \<le> r"
    by (simp add: power_int_minus field_simps)
  have "(2::real) powi (- ?k + 1) = 1 / 2 powi (?k - 1)"
    using power_int_minus_divide [of "2::real" "?k - 1"] by simp
  moreover from yk1 pos assms have "r < 1 / 2 powi (?k - 1)"
    by (simp add: field_simps)
  ultimately have h: "r < 2 powi (- ?k + 1)" by simp
  from l h show ?thesis by (simp add: fl)
qed

lemma floor_log2_bounds:
  assumes "0 < r"
  shows "2 powi floor_log2 r \<le> r" and "r < 2 powi (floor_log2 r + 1)"
  using floor_log2_ge1 [of r] floor_log2_lt1 [of r] assms
  by (cases "1 \<le> r"; simp)+

lemma pow2_less_imp_less:
  assumes "(2::real) powi a < 2 powi b"
  shows "a < b"
proof (rule ccontr)
  assume "\<not> a < b"
  then have "b \<le> a" by simp
  then have "(2::real) powi b \<le> 2 powi a" by (rule power_int_increasing) simp
  with assms show False by simp
qed

lemma floor_log2_unique:
  assumes "0 < r" and "2 powi k \<le> r" and "r < 2 powi (k + 1)"
  shows "floor_log2 r = k"
proof -
  let ?j = "floor_log2 r"
  from floor_log2_bounds [OF assms(1)] assms(3) have "(2::real) powi ?j < 2 powi (k + 1)"
    by linarith
  then have a: "?j < k + 1" by (rule pow2_less_imp_less)
  from floor_log2_bounds [OF assms(1)] assms(2) have "(2::real) powi k < 2 powi (?j + 1)"
    by linarith
  then have b: "k < ?j + 1" by (rule pow2_less_imp_less)
  from a b show ?thesis by simp
qed

subsection \<open>Rounding an integer-valued or a large argument\<close>

lemma round_half_even_of_int: "round_half_even (of_int k) = k"
  by (simp add: round_half_even_def)

lemma round_half_even_ge_floor: "\<lfloor>x\<rfloor> \<le> round_half_even x"
  by (simp add: round_half_even_def Let_def)

lemma round_half_even_le_ceiling: "round_half_even x \<le> \<lceil>x\<rceil>"
proof (cases "x = of_int \<lfloor>x\<rfloor>")
  case True
  then have "round_half_even x = \<lfloor>x\<rfloor>"
    by (metis round_half_even_of_int)
  then show ?thesis by (simp add: floor_le_ceiling)
next
  case False
  then have "\<lceil>x\<rceil> = \<lfloor>x\<rfloor> + 1"
    by (simp add: ceiling_altdef)
  then show ?thesis by (simp add: round_half_even_def Let_def)
qed

lemma pow1024: "(2::real) ^ 1024 = 2 powi 1024"
  by (simp only: power_int_numeral)

lemma rnd_zero: "rnd 0 = Finite 0"
  by (simp add: rnd_def)

lemma rnd_not_NaN: "rnd r \<noteq> NaN"
  by (simp add: rnd_def Let_def)

text \<open>
  A number \<open>m * 2^e\<close> with \<open>|m| < 2^53\<close> and \<open>-1074 \<le> e \<le> 971\<close> is left unchanged:
  these are the finite doubles.
\<close>

lemma rnd_representable:
  assumes m: "\<bar>m\<bar> < 2 ^ 53" and lo: "- 1074 \<le> e" and hi: "e \<le> 971"
  shows "rnd (of_int m * 2 powi e) = Finite (of_int m * 2 powi e)"
proof (cases "m = 0")
  case True
  then show ?thesis by (simp add: rnd_def)
next
  case False
  let ?r = "real_of_int m * 2 powi e"
  let ?b = "bit_length \<bar>m\<bar>"
  from False have mpos: "0 < \<bar>m\<bar>" by simp
  have absr: "\<bar>?r\<bar> = of_int \<bar>m\<bar> * 2 powi e" by (simp add: abs_mult)
  from False have rne: "?r \<noteq> 0" by simp
  from mpos have rpos: "0 < \<bar>?r\<bar>" using rne by simp
  from bit_length_pos [OF mpos] have b1: "1 \<le> ?b" .
  from bit_length_bounds [OF mpos] have bl: "2 ^ nat (?b - 1) \<le> \<bar>m\<bar>" and bh: "\<bar>m\<bar> < 2 ^ nat ?b"
    by simp_all
  from bl m have "(2::int) ^ nat (?b - 1) < 2 ^ 53" by linarith
  with power_less_imp_less_exp [of "2::int" "nat (?b - 1)" 53] have "nat (?b - 1) < 53"
    by (simp del: power_strict_increasing_iff)
  with b1 have b53: "?b \<le> 53" by linarith
  have "(2::real) powi (?b - 1) = of_int (2 ^ nat (?b - 1))"
    using b1 by (simp add: power_int_nonneg_exp)
  also have "\<dots> \<le> of_int \<bar>m\<bar>" using bl by (simp only: of_int_le_iff)
  finally have "(2::real) powi (?b - 1) * 2 powi e \<le> of_int \<bar>m\<bar> * 2 powi e"
    by (simp add: mult_right_mono)
  then have l: "2 powi (?b - 1 + e) \<le> \<bar>?r\<bar>"
    by (simp add: absr power_int_add)
  have "of_int \<bar>m\<bar> < (of_int (2 ^ nat ?b) :: real)" using bh by (simp only: of_int_less_iff)
  also have "(of_int (2 ^ nat ?b) :: real) = 2 powi ?b"
    using b1 by (simp add: power_int_nonneg_exp)
  finally have "of_int \<bar>m\<bar> * 2 powi e < (2::real) powi ?b * 2 powi e"
    by (simp add: mult_strict_right_mono)
  then have h: "\<bar>?r\<bar> < 2 powi (?b - 1 + e + 1)"
    by (simp add: absr power_int_add)
  from floor_log2_unique [OF rpos l h] have fl: "floor_log2 \<bar>?r\<bar> = ?b - 1 + e" .
  define q where "q = max (?b - 1 + e - 52) (- 1074)"
  from b53 lo have qe: "q \<le> e" by (simp add: q_def)
  define d where "d = nat (e - q)"
  from qe have de: "e = int d + q" by (simp add: d_def)
  have split: "(2::real) powi e = 2 ^ d * 2 powi q"
    by (simp add: de power_int_add)
  have "?r / 2 powi q = of_int (m * 2 ^ d)"
    by (simp add: split)
  then have rhe: "round_half_even (?r / 2 powi q) = m * 2 ^ d"
    by (simp only: round_half_even_of_int)
  have v: "of_int (m * 2 ^ d) * 2 powi q = ?r"
    by (simp add: split)
  have "(2::real) powi e \<le> 2 powi 971" using hi by (intro power_int_increasing) simp_all
  moreover have "real_of_int \<bar>m\<bar> < 2 ^ 53" using m
    by (metis of_int_less_iff of_int_numeral of_int_power)
  ultimately have "\<bar>?r\<bar> < 2 ^ 53 * 2 powi 971"
    unfolding absr by (intro mult_less_le_imp_less) simp_all
  also have "(2::real) ^ 53 * 2 powi 971 = 2 powi 1024"
    by (simp only: power_int_numeral power_add [symmetric]) simp
  finally have small: "\<not> 2 ^ 1024 \<le> \<bar>?r\<bar>" by (simp only: pow1024 not_le)
  show ?thesis
    unfolding rnd_def fl q_def [symmetric] Let_def rhe v
    using rne small by simp
qed

text \<open>
  A real of magnitude \<open>2^1024\<close> or more rounds to an infinity.
\<close>

lemma rnd_overflow:
  assumes big: "2 ^ 1024 \<le> \<bar>r\<bar>"
  shows "rnd r = (if 0 < r then PInf else NInf)"
proof -
  let ?e = "floor_log2 \<bar>r\<bar>"
  have p0: "(0::real) < 2 ^ 1024" by (rule zero_less_power) simp
  with big have rpos: "0 < \<bar>r\<bar>" by linarith
  then have rne: "r \<noteq> 0" by simp
  note fb = floor_log2_bounds [OF rpos]
  from big have "(2::real) powi 1024 \<le> \<bar>r\<bar>" by (simp only: pow1024)
  with fb(2) have "(2::real) powi 1024 < 2 powi (?e + 1)" by linarith
  then have "1024 < ?e + 1" by (rule pow2_less_imp_less)
  then have e: "1024 \<le> ?e" by simp
  define q where "q = max (?e - 52) (- 1074)"
  from e have q: "q = ?e - 52" by (simp add: q_def)
  have qpos: "(0::real) < 2 powi q" by simp
  have split: "(2::real) powi ?e = 2 ^ 52 * 2 powi q"
    using power_int_add [of "2::real" 52 q] by (simp add: q)
  have e1024: "(2::real) ^ 1024 \<le> 2 powi ?e"
    unfolding pow1024 using e by (intro power_int_increasing) simp_all
  define k where "k = round_half_even (r / 2 powi q)"
  have kbig: "2 ^ 52 \<le> \<bar>k\<bar>"
  proof (cases "0 < r")
    case True
    with fb(1) split have "2 ^ 52 * 2 powi q \<le> r" by linarith
    then have "real_of_int (2 ^ 52) \<le> r / 2 powi q"
      using qpos by (simp add: field_simps)
    then have "2 ^ 52 \<le> \<lfloor>r / 2 powi q\<rfloor>" by (simp only: le_floor_iff)
    with round_half_even_ge_floor [of "r / 2 powi q"] show ?thesis
      unfolding k_def by linarith
  next
    case False
    with rne fb(1) split have "2 ^ 52 * 2 powi q \<le> - r" by linarith
    then have "r / 2 powi q \<le> real_of_int (- (2 ^ 52))"
      using qpos by (simp add: field_simps)
    then have "\<lceil>r / 2 powi q\<rceil> \<le> - (2 ^ 52)" by (simp only: ceiling_le_iff)
    with round_half_even_le_ceiling [of "r / 2 powi q"] show ?thesis
      unfolding k_def by linarith
  qed
  then have "real_of_int (2 ^ 52) \<le> real_of_int \<bar>k\<bar>" by (simp only: of_int_le_iff)
  then have "2 ^ 52 * 2 powi q \<le> \<bar>real_of_int k\<bar> * 2 powi q"
    using qpos by (simp add: mult_right_mono)
  moreover have "\<bar>real_of_int k * 2 powi q\<bar> = \<bar>real_of_int k\<bar> * 2 powi q"
    by (simp add: abs_mult)
  ultimately have "2 ^ 1024 \<le> \<bar>real_of_int k * 2 powi q\<bar>"
    using e1024 split by linarith
  then show ?thesis
    unfolding rnd_def q_def [symmetric] Let_def k_def [symmetric]
    using rne by simp
qed

text \<open>
  Conversely every finite result of rounding has the form \<open>m * 2^e\<close> above, so rounding
  is idempotent, \<open>is_double\<close> holds of exactly the finite doubles, and the finite results
  of the operations are doubles.
\<close>

lemma double_form_zero:
  "\<exists>m e. \<bar>m\<bar> < 2 ^ 53 \<and> - 1074 \<le> e \<and> e \<le> 971 \<and> (0::real) = of_int m * 2 powi e"
proof (intro exI conjI)
  show "\<bar>0::int\<bar> < 2 ^ 53" by simp
  show "- 1074 \<le> (0::int)" by simp
  show "(0::int) \<le> 971" by simp
  show "(0::real) = of_int 0 * 2 powi 0" by simp
qed

lemma half_of_pow53:
  assumes "\<bar>n\<bar> = (2::int) ^ 53"
  shows "n = 2 * (n div 2)" and "\<bar>n div 2\<bar> < 2 ^ 53"
proof -
  from assms have "n = 2 ^ 53 \<or> n = - (2 ^ 53)" by linarith
  then show "n = 2 * (n div 2)" and "\<bar>n div 2\<bar> < 2 ^ 53" by auto
qed

lemma rnd_finite_form:
  assumes "rnd r = Finite v"
  shows "\<exists>m e. \<bar>m\<bar> < 2 ^ 53 \<and> - 1074 \<le> e \<and> e \<le> 971 \<and> v = of_int m * 2 powi e"
proof (cases "r = 0")
  case True
  with assms have "v = 0" by (simp add: rnd_def)
  with double_form_zero show ?thesis by simp
next
  case False
  let ?k = "floor_log2 \<bar>r\<bar>"
  define q where "q = max (?k - 52) (- 1074)"
  define n where "n = round_half_even (r / 2 powi q)"
  from False have rpos: "0 < \<bar>r\<bar>" by simp
  note fb = floor_log2_bounds [OF rpos]
  have unf: "rnd r = (if 2 ^ 1024 \<le> \<bar>real_of_int n * 2 powi q\<bar>
      then (if 0 < r then PInf else NInf) else Finite (real_of_int n * 2 powi q))"
    unfolding rnd_def q_def [symmetric] Let_def n_def [symmetric]
    using False by (simp only: if_False)
  have small: "\<not> 2 ^ 1024 \<le> \<bar>real_of_int n * 2 powi q\<bar>"
  proof
    assume "2 ^ 1024 \<le> \<bar>real_of_int n * 2 powi q\<bar>"
    with unf have "rnd r = (if 0 < r then PInf else NInf)" by (simp only: if_True)
    with assms show False by (cases "0 < r") simp_all
  qed
  with unf have "rnd r = Finite (real_of_int n * 2 powi q)" by (simp only: if_False)
  with assms have v: "v = real_of_int n * 2 powi q" by simp
  have qlo: "- 1074 \<le> q" by (simp add: q_def)
  have qpos: "(0::real) < 2 powi q" by simp
  have "\<not> 2 ^ 1024 \<le> \<bar>r\<bar>"
  proof
    assume "2 ^ 1024 \<le> \<bar>r\<bar>"
    from rnd_overflow [OF this] assms show False by (cases "0 < r") simp_all
  qed
  then have "\<bar>r\<bar> < 2 powi 1024" by (simp only: pow1024 not_le)
  with fb(1) have "(2::real) powi ?k < 2 powi 1024" by linarith
  then have "?k < 1024" by (rule pow2_less_imp_less)
  then have qhi: "q \<le> 971" by (simp add: q_def)
  have "?k + 1 - q \<le> 53" by (simp add: q_def)
  then have "(2::real) powi (?k + 1 - q) \<le> 2 powi 53"
    by (intro power_int_increasing) simp_all
  then have "(2::real) powi (?k + 1 - q) * 2 powi q \<le> 2 powi 53 * 2 powi q"
    using qpos by (simp only: mult_le_cancel_right_pos)
  moreover have "(2::real) powi (?k + 1) = 2 powi (?k + 1 - q) * 2 powi q"
    using power_int_add [of "2::real" "?k + 1 - q" q] by simp
  ultimately have "\<bar>r\<bar> < 2 powi 53 * 2 powi q" using fb(2) by linarith
  then have "\<bar>r\<bar> / 2 powi q < 2 powi 53"
    using qpos by (simp only: pos_divide_less_eq)
  moreover have "\<bar>r / 2 powi q\<bar> = \<bar>r\<bar> / 2 powi q"
    using qpos by (simp only: abs_divide abs_of_pos)
  moreover have "(2::real) powi 53 = real_of_int (2 ^ 53)"
    by (simp only: power_int_numeral of_int_power of_int_numeral)
  ultimately have x: "\<bar>r / 2 powi q\<bar> < real_of_int (2 ^ 53)"
    by (simp only:)
  then have "r / 2 powi q \<le> real_of_int (2 ^ 53)" and "real_of_int (- (2 ^ 53)) \<le> r / 2 powi q"
    by (simp_all only: of_int_minus)
  then have "\<lceil>r / 2 powi q\<rceil> \<le> 2 ^ 53" and "- (2 ^ 53) \<le> \<lfloor>r / 2 powi q\<rfloor>"
    by (simp_all only: ceiling_le_iff le_floor_iff)
  with round_half_even_ge_floor [of "r / 2 powi q"] round_half_even_le_ceiling [of "r / 2 powi q"]
  have nb: "\<bar>n\<bar> \<le> 2 ^ 53"
    unfolding n_def by linarith
  show ?thesis
  proof (cases "\<bar>n\<bar> < 2 ^ 53")
    case True
    with qlo qhi v show ?thesis by blast
  next
    case False
    with nb have n53: "\<bar>n\<bar> = 2 ^ 53" by linarith
    then have "real_of_int \<bar>n\<bar> = real_of_int (2 ^ 53)" by (simp only:)
    then have "\<bar>real_of_int n\<bar> = 2 powi 53"
      by (simp only: of_int_abs power_int_numeral of_int_power of_int_numeral)
    moreover have "\<bar>real_of_int n * 2 powi q\<bar> = \<bar>real_of_int n\<bar> * 2 powi q"
      using qpos by (simp only: abs_mult abs_of_pos)
    moreover from small have "\<bar>real_of_int n * 2 powi q\<bar> < 2 powi 1024"
      by (simp only: pow1024 not_le)
    ultimately have "(2::real) powi 53 * 2 powi q < 2 powi 1024"
      by (simp only:)
    moreover have "(2::real) powi (53 + q) = 2 powi 53 * 2 powi q"
      by (rule power_int_add) simp
    ultimately have "(2::real) powi (53 + q) < 2 powi 1024" by (simp only:)
    then have "53 + q < 1024" by (rule pow2_less_imp_less)
    then have e: "q + 1 \<le> 971" by linarith
    from qlo have elo: "- 1074 \<le> q + 1" by linarith
    note h = half_of_pow53 [OF n53]
    have "(2::real) powi (q + 1) = 2 powi q * 2"
      using power_int_add [of "2::real" q 1] by simp
    moreover have "real_of_int n = 2 * real_of_int (n div 2)"
      by (subst h(1)) (simp only: of_int_mult of_int_numeral)
    ultimately have "real_of_int n * 2 powi q = real_of_int (n div 2) * 2 powi (q + 1)"
      by (simp only: mult_ac)
    with v have "v = real_of_int (n div 2) * 2 powi (q + 1)" by (simp only:)
    with h(2) elo e show ?thesis by blast
  qed
qed

lemma rnd_idempotent:
  assumes "rnd r = Finite v"
  shows "rnd v = Finite v"
proof -
  from rnd_finite_form [OF assms] obtain m e
    where "\<bar>m\<bar> < 2 ^ 53" and "- 1074 \<le> e" and "e \<le> 971" and v: "v = of_int m * 2 powi e"
    by blast
  then show ?thesis unfolding v by (simp only: rnd_representable)
qed

lemma is_double_iff:
  "is_double x \<longleftrightarrow>
     (\<exists>m e. \<bar>m\<bar> < 2 ^ 53 \<and> - 1074 \<le> e \<and> e \<le> 971 \<and> x = Finite (of_int m * 2 powi e))"
proof (cases x)
  case (Finite a)
  show ?thesis
  proof
    assume "is_double x"
    with Finite have "rnd a = Finite a" by simp
    from rnd_finite_form [OF this] Finite show
      "\<exists>m e. \<bar>m\<bar> < 2 ^ 53 \<and> - 1074 \<le> e \<and> e \<le> 971 \<and> x = Finite (of_int m * 2 powi e)"
      by (simp only: double.inject)
  next
    assume "\<exists>m e. \<bar>m\<bar> < 2 ^ 53 \<and> - 1074 \<le> e \<and> e \<le> 971 \<and> x = Finite (of_int m * 2 powi e)"
    then obtain m e where "\<bar>m\<bar> < 2 ^ 53" and "- 1074 \<le> e" and "e \<le> 971"
      and x: "x = Finite (of_int m * 2 powi e)" by blast
    then show "is_double x" unfolding x is_double.simps by (simp only: rnd_representable)
  qed
qed simp_all

lemma fadd_closed: "fadd (Finite a) (Finite b) = Finite c \<Longrightarrow> is_double (Finite c)"
  by (simp add: rnd_idempotent)

lemma fmul_closed: "fmul (Finite a) (Finite b) = Finite c \<Longrightarrow> is_double (Finite c)"
  by (simp add: rnd_idempotent)

subsection \<open>Evaluating \<open>rnd\<close> on numerals\<close>

lemma rnd_int:
  assumes "\<bar>m\<bar> < 2 ^ 53"
  shows "rnd (of_int m) = Finite (of_int m)"
  using rnd_representable [OF assms, of 0] by simp

lemma rnd_dyadic:
  assumes "\<bar>m\<bar> < 2 ^ 53" and "k \<le> 1074"
  shows "rnd (of_int m / 2 ^ k) = Finite (of_int m / 2 ^ k)"
proof -
  have "real_of_int m * 2 powi (- int k) = of_int m / 2 ^ k"
    by (simp add: power_int_minus field_simps)
  with rnd_representable [OF assms(1), of "- int k"] assms(2) show ?thesis
    by simp
qed

lemma rnd_frac:
  assumes "\<bar>m\<bar> < 2 ^ 53" and "is_pow2 b"
  shows "rnd (of_int m / of_int b) = Finite (of_int m / of_int b)"
proof -
  from assms(2) have b: "b = 2 ^ nat (bit_length b - 1)" and "bit_length b \<le> 1075"
    by (simp_all add: is_pow2_def)
  then have k: "nat (bit_length b - 1) \<le> 1074" by linarith
  have rb: "real_of_int b = 2 ^ nat (bit_length b - 1)"
    by (subst b) simp
  show ?thesis
    unfolding rb by (rule rnd_dyadic [OF assms(1) k])
qed

lemma rnd_one: "rnd 1 = Finite 1"
  using rnd_int [of 1] by simp

lemma rnd_minus_one: "rnd (- 1) = Finite (- 1)"
  using rnd_int [of "- 1"] by simp

lemma rnd_numeral: "(numeral n :: int) < 2 ^ 53 \<Longrightarrow> rnd (numeral n) = Finite (numeral n)"
  using rnd_int [of "numeral n"] by simp

lemma rnd_neg_numeral:
  "(numeral n :: int) < 2 ^ 53 \<Longrightarrow> rnd (- numeral n) = Finite (- numeral n)"
  using rnd_int [of "- numeral n"] by simp

lemma rnd_numeral_frac:
  "(numeral a :: int) < 2 ^ 53 \<Longrightarrow> is_pow2 (numeral b) \<Longrightarrow>
   rnd (numeral a / numeral b) = Finite (numeral a / numeral b)"
  using rnd_frac [of "numeral a" "numeral b"] by simp

lemma rnd_neg_numeral_frac:
  "(numeral a :: int) < 2 ^ 53 \<Longrightarrow> is_pow2 (numeral b) \<Longrightarrow>
   rnd (- (numeral a / numeral b)) = Finite (- (numeral a / numeral b))"
  using rnd_frac [of "- numeral a" "numeral b"] by simp

lemma rnd_one_frac:
  "is_pow2 (numeral b) \<Longrightarrow> rnd (1 / numeral b) = Finite (1 / numeral b)"
  using rnd_frac [of 1 "numeral b"] by simp

lemma rnd_neg_one_frac:
  "is_pow2 (numeral b) \<Longrightarrow> rnd (- (1 / numeral b)) = Finite (- (1 / numeral b))"
  using rnd_frac [of "- 1" "numeral b"] by simp

lemmas rnd_evals =
  rnd_zero rnd_one rnd_minus_one rnd_numeral rnd_neg_numeral
  rnd_numeral_frac rnd_neg_numeral_frac rnd_one_frac rnd_neg_one_frac
  is_pow2_def bit_length.simps

text \<open>
  Where rounding changes the argument, the exponent \<open>k\<close> and the rounded multiple
  \<open>n\<close> are given and checked.
\<close>

lemma rnd_finite_eval:
  assumes "r \<noteq> 0" and "2 powi k \<le> \<bar>r\<bar>" and "\<bar>r\<bar> < 2 powi (k + 1)"
    and "round_half_even (r / 2 powi max (k - 52) (- 1074)) = n"
    and "\<bar>real_of_int n * 2 powi max (k - 52) (- 1074)\<bar> < 2 ^ 1024"
  shows "rnd r = Finite (of_int n * 2 powi max (k - 52) (- 1074))"
proof -
  from assms(1) have "0 < \<bar>r\<bar>" by simp
  from floor_log2_unique [OF this assms(2,3)] have "floor_log2 \<bar>r\<bar> = k" .
  with assms(1,4,5) show ?thesis
    by (simp add: rnd_def Let_def)
qed

text \<open>
  The double written \<^verbatim>\<open>0.1\<close>; ten times it, and one minus it; and two ties, which go to
  the even neighbour.
\<close>

lemma rnd_tenth: "rnd (1 / 10) = Finite (3602879701896397 / 36028797018963968)"
  using rnd_finite_eval [of "1 / 10" "- 4" 7205759403792794]
  by (simp add: round_half_even_def)

lemma rnd_tenth_times_ten:
  "rnd (18014398509481985 / 18014398509481984) = Finite 1"
  using rnd_finite_eval [of "18014398509481985 / 18014398509481984" 0 4503599627370496]
  by (simp add: round_half_even_def)

lemma rnd_one_minus_tenth:
  "rnd (32425917317067571 / 36028797018963968) = Finite (8106479329266893 / 9007199254740992)"
  using rnd_finite_eval [of "32425917317067571 / 36028797018963968" "- 1" 8106479329266893]
  by (simp add: round_half_even_def)

lemma rnd_tie_half:
  "rnd (9007199254740993 / 18014398509481984) = Finite (1 / 2)"
  using rnd_finite_eval [of "9007199254740993 / 18014398509481984" "- 1" 4503599627370496]
  by (simp add: round_half_even_def)

lemma rnd_tie_one:
  "rnd (9007199254740993 / 9007199254740992) = Finite 1"
  using rnd_finite_eval [of "9007199254740993 / 9007199254740992" 0 4503599627370496]
  by (simp add: round_half_even_def)

subsection \<open>Facts about the operations\<close>

lemma fadd_NaN_right: "fadd x NaN = NaN"
  by (cases x) simp_all

lemma fmul_NaN_right: "fmul x NaN = NaN"
  by (cases x) simp_all

lemma fsub_self: "is_double x \<Longrightarrow> fsub x x = Finite 0"
  by (cases x) (simp_all add: fsub_def rnd_zero)

lemma fsub_finite_not_NaN: "fsub (Finite a) (Finite b) \<noteq> NaN"
  by (simp add: fsub_def rnd_not_NaN)

lemma fgt_fle_trans: "fle t1 t2 \<Longrightarrow> fgt d t2 \<Longrightarrow> fgt d t1"
  by (cases d; cases t1; cases t2) (simp_all add: fle_def)

lemma fgt_negative_threshold: "fgt (Finite 0) z \<Longrightarrow> fgt (fabs d) z \<longleftrightarrow> d \<noteq> NaN"
  by (cases d; cases z) simp_all

lemma not_fgt_zero: "fle (Finite 0) z \<Longrightarrow> \<not> fgt (fabs (Finite 0)) z"
  by (simp add: fle_def)

lemma step_alpha_one:
  "is_double x \<Longrightarrow> is_double p \<Longrightarrow>
   fadd (fmul (Finite 1) x) (fmul (fsub (Finite 1) (Finite 1)) p) = x"
  by (cases x; cases p) (simp_all add: fsub_def rnd_zero)

lemma step_alpha_zero:
  "is_double x \<Longrightarrow> is_double p \<Longrightarrow>
   fadd (fmul (Finite 0) x) (fmul (fsub (Finite 1) (Finite 0)) p) = p"
  by (cases x; cases p) (simp_all add: fsub_def rnd_zero rnd_one)

section \<open>Indexing and the loop\<close>

lemma getitem_in_range: "i < length xs \<Longrightarrow> getitem xs (int i) = Inr (xs ! i)"
  by (simp add: getitem_def)

lemma getitem_last: "xs \<noteq> [] \<Longrightarrow> getitem xs (- 1) = Inr (last xs)"
proof (cases xs)
  case Nil
  assume "xs \<noteq> []"
  with Nil show ?thesis by simp
next
  case (Cons y ys)
  have "nat (int (length (y # ys)) + - 1) = length ys" by simp
  then show ?thesis
    unfolding Cons getitem_def by (simp add: last_conv_nth)
qed

lemma getitem_empty: "getitem [] k = Inl IndexError"
  by (simp add: getitem_def)

lemma for_loop_snoc:
  "for_loop body (xs @ [i]) s =
     (case for_loop body xs s of Inl e \<Rightarrow> Inl e | Inr s' \<Rightarrow> body i s')"
  by (induction xs arbitrary: s) (simp_all split: sum.splits)

text \<open>
  One iteration at an index inside \<^verbatim>\<open>data\<close>, from a state whose \<^verbatim>\<open>data_stream\<close> is not
  empty, raises nothing.
\<close>

lemma loop_body_step:
  assumes "i < length data" and "data_stream s \<noteq> []"
  shows "loop_body data alpha z i s =
     Inr \<lparr>data_stream = data_stream s @
            [fadd (fmul alpha (data ! i)) (fmul (fsub (Finite 1) alpha) (last (data_stream s)))],
          anomalies =
            (if fgt (fabs (fsub (data ! i)
                  (fadd (fmul alpha (data ! i))
                     (fmul (fsub (Finite 1) alpha) (last (data_stream s)))))) z
             then anomalies s @ [(i, data ! i)] else anomalies s)\<rparr>"
  unfolding loop_body_def getitem_in_range [OF assms(1)] getitem_last [OF assms(2)]
  by (simp add: Let_def)

text \<open>
  The loop invariant: after the indices \<open>1 .. n\<close> the loop has raised nothing,
  \<^verbatim>\<open>data_stream\<close> holds the recurrence's values for \<open>0 .. n\<close> and \<^verbatim>\<open>anomalies\<close> the
  flagged indices among \<open>1 .. n\<close>, in order, each with its sample.
\<close>

lemma loop_invariant:
  "n < length data \<Longrightarrow>
   for_loop (loop_body data alpha z) [1..<Suc n] \<lparr>data_stream = [data ! 0], anomalies = []\<rparr> =
     Inr \<lparr>data_stream = map (spec_trend data alpha) [0..<Suc n],
          anomalies = map (\<lambda>i. (i, data ! i)) (filter (spec_flagged data alpha z) [1..<Suc n])\<rparr>"
proof (induction n)
  case 0
  show ?case by simp
next
  case (Suc n)
  let ?s = "\<lparr>data_stream = map (spec_trend data alpha) [0..<Suc n],
             anomalies = map (\<lambda>i. (i, data ! i))
               (filter (spec_flagged data alpha z) [1..<Suc n])\<rparr>"
  from Suc have IH:
    "for_loop (loop_body data alpha z) [1..<Suc n] \<lparr>data_stream = [data ! 0], anomalies = []\<rparr> =
       Inr ?s"
    by simp
  have snoc: "[1..<Suc (Suc n)] = [1..<Suc n] @ [Suc n]" by simp
  have "data_stream ?s \<noteq> []" by simp
  note step = loop_body_step [OF Suc.prems this, of alpha z]
  show ?case
    unfolding snoc for_loop_snoc IH sum.case step
    by (simp add: spec_flagged_def [abs_def])
qed

text \<open>
  On a non-empty input the function returns the recurrence's trend for every index
  and the flagged indices from 1 on.
\<close>

lemma anomaly_detection_refines:
  assumes "data \<noteq> []"
  shows "anomaly_detection data alpha z =
     Inr (map (spec_trend data alpha) [0..<length data],
          map (\<lambda>i. (i, data ! i)) (filter (spec_flagged data alpha z) [1..<length data]))"
proof -
  from assms obtain d0 rest where data: "data = d0 # rest" by (cases data) auto
  have len: "length data = Suc (length rest)"
    by (simp add: data)
  have seed: "getitem data 0 = Inr (data ! 0)"
    using getitem_in_range [of 0 data] assms by simp
  have "length rest < length data" by (simp add: len)
  from loop_invariant [OF this, of alpha z] show ?thesis
    unfolding len [symmetric]
    by (simp add: anomaly_detection_def seed)
qed

lemma flagged_same_step:
  "filter (spec_flagged data alpha z) [1..<length data] =
   filter (\<lambda>i. fgt (fabs (fsub (data ! i)
             (map (spec_trend data alpha) [0..<length data] ! i))) z) [1..<length data]"
  by (rule filter_cong) (simp_all add: spec_flagged_def)

lemma spec_trend_alpha_one:
  assumes "\<forall>x \<in> set data. is_double x"
  shows "i < length data \<Longrightarrow> spec_trend data (Finite 1) i = data ! i"
proof (induction i)
  case 0
  show ?case by simp
next
  case (Suc i)
  then have "spec_trend data (Finite 1) i = data ! i" by simp
  moreover from assms Suc.prems have "is_double (data ! Suc i)" "is_double (data ! i)"
    by simp_all
  ultimately show ?case by (simp add: step_alpha_one)
qed

lemma spec_trend_alpha_zero:
  assumes "\<forall>x \<in> set data. is_double x"
  shows "i < length data \<Longrightarrow> spec_trend data (Finite 0) i = data ! 0"
proof (induction i)
  case 0
  show ?case by simp
next
  case (Suc i)
  then have IH: "spec_trend data (Finite 0) i = data ! 0" by simp
  from Suc.prems have "0 < length data" by linarith
  with Suc.prems have "data ! Suc i \<in> set data" and "data ! 0 \<in> set data"
    by (simp_all only: nth_mem)
  with assms have "is_double (data ! Suc i)" and "is_double (data ! 0)"
    by blast+
  with IH show ?case by (simp add: step_alpha_zero)
qed

lemmas run_simps = anomaly_detection_def loop_body_def getitem_def fsub_def upt_rec Let_def

text \<open>
  A run that overflows: when \<open>3 * d\<close> is \<open>+\<infinity>\<close> and \<open>-2 * d\<close> is \<open>-\<infinity>\<close>, the average
  at index 1 is \<open>\<infinity> - \<infinity>\<close>, which is NaN, and so is the deviation.
\<close>

lemma overflow_run:
  assumes "fmul (Finite 3) d = PInf" and "fmul (Finite (- 2)) d = NInf"
  shows "anomaly_detection [d, d] (Finite 3) (Finite (- 1)) = Inr ([d, NaN], [])"
  by (simp add: run_simps rnd_evals assms fadd_NaN_right)

lemma three_times_huge: "fmul (Finite 3) (Finite (2 ^ 1023)) = PInf"
  using rnd_overflow [of "3 * 2 ^ 1023"] by simp

lemma minus_two_times_huge: "fmul (Finite (- 2)) (Finite (2 ^ 1023)) = NInf"
  using rnd_overflow [of "- 2 * 2 ^ 1023"] by simp

lemma huge_is_double: "is_double (Finite (2 ^ 1023))"
  using rnd_representable [of "2 ^ 52" 971] by simp

section \<open>The trend\<close>

text \<open>
  C1, as stated, reads the recurrence over the reals. The function rounds: with
  \<^verbatim>\<open>alpha = 0.1\<close> (the value the file's own call passes) and the signal \<open>[0, 10]\<close> it
  returns \<open>trend[1] = 1\<close>, while \<open>alpha * signal[1] + (1 - alpha) * trend[0]\<close> is
  \<open>1 + 2^-54\<close> for the double \<open>alpha\<close>.
\<close>

theorem trend_recurrence_exact_counterexample:
  "anomaly_detection [Finite 0, Finite 10] (Finite (3602879701896397 / 2 ^ 55)) (Finite 8) =
     Inr ([Finite 0, Finite 1], [(1, Finite 10)]) \<and>
   (1::real) \<noteq> 3602879701896397 / 2 ^ 55 * 10 + (1 - 3602879701896397 / 2 ^ 55) * 0 \<and>
   rnd (1 / 10) = Finite (3602879701896397 / 2 ^ 55) \<and>
   is_double (Finite 0) \<and> is_double (Finite 10) \<and> is_double (Finite 8)"
  by (simp add: run_simps rnd_evals rnd_tenth rnd_tenth_times_ten rnd_one_minus_tenth)

text \<open>
  C1 (amended): for every non-empty signal and all alpha and threshold, the function
  returns, and the trend it returns has the length of the signal, starts with the first
  sample, and at every index \<open>i\<close> from 1 on is the double computed as
  \<open>alpha * signal[i] + (1 - alpha) * trend[i - 1]\<close> with each of the four operations
  rounded to binary64.
\<close>

theorem trend_recurrence:
  assumes "data \<noteq> []"
  shows "\<exists>trend an. anomaly_detection data alpha z = Inr (trend, an) \<and>
           length trend = length data \<and>
           trend ! 0 = data ! 0 \<and>
           (\<forall>i. 1 \<le> i \<and> i < length data \<longrightarrow>
              trend ! i =
                fadd (fmul alpha (data ! i)) (fmul (fsub (Finite 1) alpha) (trend ! (i - 1))))"
proof -
  let ?trend = "map (spec_trend data alpha) [0..<length data]"
  have len: "length ?trend = length data" by simp
  have seed: "?trend ! 0 = data ! 0" using assms by simp
  have step: "?trend ! i =
      fadd (fmul alpha (data ! i)) (fmul (fsub (Finite 1) alpha) (?trend ! (i - 1)))"
    if "1 \<le> i \<and> i < length data" for i
  proof -
    from that obtain j where i: "i = Suc j" by (cases i) auto
    with that have "j < length data" by simp
    with that show ?thesis by (simp add: i)
  qed
  from anomaly_detection_refines [OF assms] len seed step show ?thesis by blast
qed

theorem trend_recurrence_witness:
  "[Finite 1, Finite 2, Finite 4] \<noteq> [] \<and>
   anomaly_detection [Finite 1, Finite 2, Finite 4] (Finite (1 / 2)) (Finite 1) =
     Inr ([Finite 1, Finite (3 / 2), Finite (11 / 4)], [(2, Finite 4)]) \<and>
   Finite (3 / 2) =
     fadd (fmul (Finite (1 / 2)) (Finite 2)) (fmul (fsub (Finite 1) (Finite (1 / 2))) (Finite 1)) \<and>
   Finite (11 / 4) =
     fadd (fmul (Finite (1 / 2)) (Finite 4))
       (fmul (fsub (Finite 1) (Finite (1 / 2))) (Finite (3 / 2)))"
  using trend_recurrence [of "[Finite 1, Finite 2, Finite 4]" "Finite (1 / 2)" "Finite 1"]
  by (simp add: run_simps rnd_evals)

section \<open>The anomalies\<close>

text \<open>
  C2, as stated, compares the exact distance \<open>|signal[i] - trend[i]|\<close> with the
  threshold. The function compares the rounded difference: on \<open>[-2^-53, 1]\<close> with
  \<open>alpha = 1/2\<close> and threshold \<open>1/2\<close> the trend at index 1 is \<open>1/2 - 2^-54\<close>, the
  exact distance \<open>1/2 + 2^-54\<close> exceeds the threshold, the rounded difference is \<open>1/2\<close>
  and index 1 is not flagged.
\<close>

theorem anomalies_exact_deviation_counterexample:
  "anomaly_detection [Finite (- (1 / 2 ^ 53)), Finite 1] (Finite (1 / 2)) (Finite (1 / 2)) =
     Inr ([Finite (- (1 / 2 ^ 53)), Finite (1 / 2 - 1 / 2 ^ 54)], []) \<and>
   \<bar>1 - (1 / 2 - 1 / 2 ^ 54)\<bar> > (1 / 2 :: real) \<and>
   is_double (Finite (- (1 / 2 ^ 53))) \<and> is_double (Finite 1) \<and> is_double (Finite (1 / 2))"
  by (simp add: run_simps rnd_evals rnd_tie_half)

text \<open>
  C2 (amended): for every non-empty signal, the anomalies returned are exactly the pairs
  \<open>(i, signal[i])\<close> for the indices \<open>i\<close> from 1 to the last at which the binary64
  difference \<open>signal[i] - trend[i]\<close>, in absolute value, is greater than the threshold in
  the floating-point comparison (never so when it is NaN). Here \<open>trend[i]\<close> is the trend
  value of the same index in the returned trend (which already contains \<open>signal[i]\<close>),
  and the pairs are listed by increasing index.
\<close>

theorem anomalies_same_step:
  assumes "data \<noteq> []"
  shows "\<exists>trend an. anomaly_detection data alpha z = Inr (trend, an) \<and>
           an = map (\<lambda>i. (i, data ! i))
                  (filter (\<lambda>i. fgt (fabs (fsub (data ! i) (trend ! i))) z) [1..<length data]) \<and>
           (\<forall>i v. (i, v) \<in> set an \<longleftrightarrow>
              1 \<le> i \<and> i < length data \<and> v = data ! i \<and>
              fgt (fabs (fsub (data ! i) (trend ! i))) z) \<and>
           sorted_wrt (<) (map fst an)"
proof -
  let ?trend = "map (spec_trend data alpha) [0..<length data]"
  let ?P = "\<lambda>i. fgt (fabs (fsub (data ! i) (?trend ! i))) z"
  let ?an = "map (\<lambda>i. (i, data ! i)) (filter ?P [1..<length data])"
  have run: "anomaly_detection data alpha z = Inr (?trend, ?an)"
    using anomaly_detection_refines [OF assms, of alpha z]
    by (simp only: flagged_same_step)
  have mem: "(i, v) \<in> set ?an \<longleftrightarrow> 1 \<le> i \<and> i < length data \<and> v = data ! i \<and> ?P i" for i v
    by auto
  have "map fst ?an = filter ?P [1..<length data]"
    by (simp add: comp_def)
  then have ord: "sorted_wrt (<) (map fst ?an)"
    by (simp only: sorted_wrt_filter sorted_wrt_upt)
  from run mem ord show ?thesis by blast
qed

text \<open>
  At \<open>[0, 100]\<close> with \<open>alpha = 1/2\<close> the sample 100 is 50 away from its own trend value
  and 100 away from the one before: a threshold of 60 does not flag it, one of 40 does.
\<close>

theorem anomalies_same_step_witness:
  "[Finite 0, Finite 100] \<noteq> [] \<and>
   anomaly_detection [Finite 0, Finite 100] (Finite (1 / 2)) (Finite 60) =
     Inr ([Finite 0, Finite 50], []) \<and>
   anomaly_detection [Finite 0, Finite 100] (Finite (1 / 2)) (Finite 40) =
     Inr ([Finite 0, Finite 50], [(1, Finite 100)]) \<and>
   \<not> fgt (fabs (fsub (Finite 100) (Finite 50))) (Finite 60) \<and>
   fgt (fabs (fsub (Finite 100) (Finite 0))) (Finite 60) \<and>
   fgt (fabs (fsub (Finite 100) (Finite 50))) (Finite 40)"
  using anomalies_same_step [of "[Finite 0, Finite 100]" "Finite (1 / 2)" "Finite 60"]
  by (simp add: run_simps rnd_evals)

text \<open>
  C3: for every non-empty signal of length \<open>N\<close>, every index in the anomalies lies in
  \<open>1 .. N - 1\<close>, and the indices are strictly increasing, so none occurs twice.
\<close>

theorem anomaly_indices_valid:
  assumes "data \<noteq> []"
  shows "\<exists>trend an. anomaly_detection data alpha z = Inr (trend, an) \<and>
           (\<forall>i \<in> set (map fst an). 1 \<le> i \<and> i < length data) \<and>
           sorted_wrt (<) (map fst an) \<and>
           distinct (map fst an)"
proof -
  let ?an = "map (\<lambda>i. (i, data ! i)) (filter (spec_flagged data alpha z) [1..<length data])"
  have idx: "map fst ?an = filter (spec_flagged data alpha z) [1..<length data]"
    by (simp add: comp_def)
  have rng: "\<forall>i \<in> set (map fst ?an). 1 \<le> i \<and> i < length data"
    unfolding idx by simp
  have ord: "sorted_wrt (<) (map fst ?an)"
    unfolding idx by (simp only: sorted_wrt_filter sorted_wrt_upt)
  have dis: "distinct (map fst ?an)"
    unfolding idx by simp
  from anomaly_detection_refines [OF assms, of alpha z] rng ord dis show ?thesis
    by blast
qed

theorem anomaly_indices_valid_witness:
  "[Finite 0, Finite 9, Finite 0, Finite 9, Finite 0] \<noteq> [] \<and>
   anomaly_detection [Finite 0, Finite 9, Finite 0, Finite 9, Finite 0] (Finite (1 / 4)) (Finite 4) =
     Inr ([Finite 0, Finite (9 / 4), Finite (27 / 16), Finite (225 / 64), Finite (675 / 256)],
          [(1, Finite 9), (3, Finite 9)]) \<and>
   (1::nat) \<le> 1 \<and> (1::nat) < 3 \<and>
   (3::nat) < length [Finite 0, Finite 9, Finite 0, Finite 9, Finite 0]"
  using anomaly_indices_valid
    [of "[Finite 0, Finite 9, Finite 0, Finite 9, Finite 0]" "Finite (1 / 4)" "Finite 4"]
  by (simp add: run_simps rnd_evals)

section \<open>Degenerate smoothing factors\<close>

text \<open>
  C4: with \<open>alpha = 1\<close>, for every non-empty signal of finite doubles and every threshold
  that is not negative (zero included), the trend returned is the signal itself and no
  anomaly is returned.
\<close>

theorem alpha_one_degenerate:
  assumes "data \<noteq> []" and "\<forall>x \<in> set data. is_double x" and "fle (Finite 0) z"
  shows "anomaly_detection data (Finite 1) z = Inr (data, [])"
proof -
  have trend: "map (spec_trend data (Finite 1)) [0..<length data] = data"
    by (rule nth_equalityI) (simp_all add: spec_trend_alpha_one [OF assms(2)])
  have "\<not> spec_flagged data (Finite 1) z i" if "i < length data" for i
  proof -
    from that assms(2) have "is_double (data ! i)" by simp
    then have "fsub (data ! i) (data ! i) = Finite 0" by (rule fsub_self)
    with that not_fgt_zero [OF assms(3)] show ?thesis
      by (simp add: spec_flagged_def spec_trend_alpha_one [OF assms(2)])
  qed
  then have none: "filter (spec_flagged data (Finite 1) z) [1..<length data] = []"
    by simp
  from anomaly_detection_refines [OF assms(1), of "Finite 1" z] show ?thesis
    by (simp only: trend none list.map)
qed

theorem alpha_one_degenerate_witness:
  "[Finite 5, Finite (- 5), Finite 5, Finite (- 5), Finite 5] \<noteq> [] \<and>
   is_double (Finite 5) \<and> is_double (Finite (- 5)) \<and>
   fle (Finite 0) (Finite 0) \<and>
   anomaly_detection [Finite 5, Finite (- 5), Finite 5, Finite (- 5), Finite 5]
       (Finite 1) (Finite 0) =
     Inr ([Finite 5, Finite (- 5), Finite 5, Finite (- 5), Finite 5], [])"
  using alpha_one_degenerate
    [of "[Finite 5, Finite (- 5), Finite 5, Finite (- 5), Finite 5]" "Finite 0"]
  by (simp add: rnd_evals fle_def)

text \<open>
  C8, as stated, flags an index when the exact distance \<open>|signal[i] - signal[0]|\<close>
  exceeds the threshold. On \<open>[-2^-53, 1]\<close> with \<open>alpha = 0\<close> and threshold 1 the exact
  distance is \<open>1 + 2^-53\<close>, the rounded difference is 1, and index 1 is not flagged.
\<close>

theorem alpha_zero_exact_deviation_counterexample:
  "anomaly_detection [Finite (- (1 / 2 ^ 53)), Finite 1] (Finite 0) (Finite 1) =
     Inr ([Finite (- (1 / 2 ^ 53)), Finite (- (1 / 2 ^ 53))], []) \<and>
   \<bar>1 - (- (1 / 2 ^ 53))\<bar> > (1 :: real) \<and>
   is_double (Finite (- (1 / 2 ^ 53))) \<and> is_double (Finite 1) \<and> is_double (Finite 0)"
  by (simp add: run_simps rnd_evals rnd_tie_one)

text \<open>
  C8 (amended): with \<open>alpha = 0\<close>, for every non-empty signal of finite doubles, every
  trend value returned is the first sample, and the anomalies are the pairs
  \<open>(i, signal[i])\<close> for exactly the indices \<open>i\<close> from 1 on at which the binary64 difference
  \<open>signal[i] - signal[0]\<close>, in absolute value, is greater than the threshold.
\<close>

theorem alpha_zero_frozen:
  assumes "data \<noteq> []" and "\<forall>x \<in> set data. is_double x"
  shows "anomaly_detection data (Finite 0) z =
     Inr (replicate (length data) (data ! 0),
          map (\<lambda>i. (i, data ! i))
            (filter (\<lambda>i. fgt (fabs (fsub (data ! i) (data ! 0))) z) [1..<length data]))"
proof -
  have trend: "map (spec_trend data (Finite 0)) [0..<length data] =
      replicate (length data) (data ! 0)"
    by (rule nth_equalityI) (simp_all add: spec_trend_alpha_zero [OF assms(2)])
  have flag: "filter (spec_flagged data (Finite 0) z) [1..<length data] =
      filter (\<lambda>i. fgt (fabs (fsub (data ! i) (data ! 0))) z) [1..<length data]"
    by (rule filter_cong) (simp_all add: spec_flagged_def spec_trend_alpha_zero [OF assms(2)])
  from anomaly_detection_refines [OF assms(1), of "Finite 0" z] show ?thesis
    by (simp only: trend flag)
qed

theorem alpha_zero_frozen_witness:
  "[Finite 1, Finite 2, Finite 7, Finite 0] \<noteq> [] \<and>
   is_double (Finite 1) \<and> is_double (Finite 2) \<and> is_double (Finite 7) \<and>
   is_double (Finite 0) \<and>
   anomaly_detection [Finite 1, Finite 2, Finite 7, Finite 0] (Finite 0) (Finite (1 / 2)) =
     Inr ([Finite 1, Finite 1, Finite 1, Finite 1],
          [(1, Finite 2), (2, Finite 7), (3, Finite 0)]) \<and>
   anomaly_detection [Finite 1, Finite 2, Finite 7, Finite 0] (Finite 0) (Finite 1) =
     Inr ([Finite 1, Finite 1, Finite 1, Finite 1], [(2, Finite 7)])"
  using alpha_zero_frozen [of "[Finite 1, Finite 2, Finite 7, Finite 0]" "Finite (1 / 2)"]
    alpha_zero_frozen [of "[Finite 1, Finite 2, Finite 7, Finite 0]" "Finite 1"]
  by (simp add: upt_rec fsub_def rnd_evals)

section \<open>The threshold\<close>

text \<open>
  C5: for a fixed non-empty signal and alpha, and thresholds \<open>t1 \<le> t2\<close>, every anomaly
  returned at \<open>t2\<close> is returned at \<open>t1\<close>, so there are at most as many at \<open>t2\<close> as
  at \<open>t1\<close>. (The trend is the same at both.)
\<close>

theorem threshold_monotone:
  assumes "data \<noteq> []" and "fle t1 t2"
  shows "\<exists>trend an1 an2.
           anomaly_detection data alpha t1 = Inr (trend, an1) \<and>
           anomaly_detection data alpha t2 = Inr (trend, an2) \<and>
           set an2 \<subseteq> set an1 \<and>
           length an2 \<le> length an1"
proof -
  let ?xs = "[1..<length data]"
  let ?P1 = "spec_flagged data alpha t1" and ?P2 = "spec_flagged data alpha t2"
  let ?g = "\<lambda>i. (i, data ! i)"
  have imp: "?P2 i \<Longrightarrow> ?P1 i" for i
    unfolding spec_flagged_def by (rule fgt_fle_trans [OF assms(2)])
  have "filter ?P2 (filter ?P1 ?xs) = filter ?P2 ?xs"
    unfolding filter_filter by (rule filter_cong) (auto dest: imp)
  then have sub: "filter ?P2 ?xs = filter ?P2 (filter ?P1 ?xs)" by simp
  have "length (filter ?P2 ?xs) \<le> length (filter ?P1 ?xs)"
    by (subst sub) (rule length_filter_le)
  then have len: "length (map ?g (filter ?P2 ?xs)) \<le> length (map ?g (filter ?P1 ?xs))"
    by simp
  have "set (filter ?P2 ?xs) \<subseteq> set (filter ?P1 ?xs)"
    using imp by auto
  then have incl: "set (map ?g (filter ?P2 ?xs)) \<subseteq> set (map ?g (filter ?P1 ?xs))"
    by auto
  from anomaly_detection_refines [OF assms(1), of alpha t1]
       anomaly_detection_refines [OF assms(1), of alpha t2] incl len
  show ?thesis by blast
qed

theorem threshold_monotone_witness:
  "[Finite 0, Finite 9, Finite 0, Finite 9, Finite 0] \<noteq> [] \<and> fle (Finite 2) (Finite 4) \<and>
   anomaly_detection [Finite 0, Finite 9, Finite 0, Finite 9, Finite 0] (Finite (1 / 4)) (Finite 2) =
     Inr ([Finite 0, Finite (9 / 4), Finite (27 / 16), Finite (225 / 64), Finite (675 / 256)],
          [(1, Finite 9), (3, Finite 9), (4, Finite 0)]) \<and>
   anomaly_detection [Finite 0, Finite 9, Finite 0, Finite 9, Finite 0] (Finite (1 / 4)) (Finite 4) =
     Inr ([Finite 0, Finite (9 / 4), Finite (27 / 16), Finite (225 / 64), Finite (675 / 256)],
          [(1, Finite 9), (3, Finite 9)]) \<and>
   set [(1::nat, Finite 9), (3, Finite 9)] \<subseteq> set [(1, Finite 9), (3, Finite 9), (4, Finite 0)] \<and>
   length [(1::nat, Finite 9), (3, Finite 9)] \<le>
     length [(1::nat, Finite 9), (3, Finite 9), (4, Finite 0)]"
  using threshold_monotone
    [of "[Finite 0, Finite 9, Finite 0, Finite 9, Finite 0]" "Finite 2" "Finite 4" "Finite (1 / 4)"]
  by (simp add: run_simps rnd_evals fle_def)

text \<open>
  C10, as stated, has every index flagged under a negative threshold. A NaN deviation
  is not greater than anything: on \<open>[2^1023, 2^1023]\<close> with \<open>alpha = 3\<close> and threshold
  \<open>-1\<close>, all finite doubles, the average at index 1 overflows to \<open>\<infinity> - \<infinity>\<close> and no
  anomaly is returned.
\<close>

theorem negative_threshold_counterexample:
  "anomaly_detection [Finite (2 ^ 1023), Finite (2 ^ 1023)] (Finite 3) (Finite (- 1)) =
     Inr ([Finite (2 ^ 1023), NaN], []) \<and>
   fgt (Finite 0) (Finite (- 1)) \<and>
   is_double (Finite (2 ^ 1023)) \<and> is_double (Finite 3) \<and> is_double (Finite (- 1))"
proof -
  have small: "is_double (Finite 3)" "is_double (Finite (- 1))" "fgt (Finite 0) (Finite (- 1))"
    by (simp_all add: rnd_evals)
  from overflow_run [OF three_times_huge minus_two_times_huge] huge_is_double small
  show ?thesis by (simp only: simp_thms)
qed

text \<open>
  C10 (amended): for a threshold below zero, every alpha and every non-empty signal, the
  anomalies are the pairs \<open>(i, signal[i])\<close>, in order, for exactly the indices from 1 on
  whose deviation \<open>signal[i] - trend[i]\<close> is not NaN. With \<open>alpha = 1\<close> and a signal of
  \<open>N\<close> finite doubles no deviation is NaN: every index from 1 to \<open>N - 1\<close> is returned,
  which makes \<open>N - 1\<close> anomalies, and at least one when \<open>N \<ge> 2\<close>.
\<close>

theorem negative_threshold_flags_all:
  assumes "data \<noteq> []" and "fgt (Finite 0) z"
  shows "(\<exists>trend an. anomaly_detection data alpha z = Inr (trend, an) \<and>
            an = map (\<lambda>i. (i, data ! i))
                   (filter (\<lambda>i. fsub (data ! i) (trend ! i) \<noteq> NaN) [1..<length data])) \<and>
         ((\<forall>x \<in> set data. is_double x) \<longrightarrow>
            anomaly_detection data (Finite 1) z =
              Inr (data, map (\<lambda>i. (i, data ! i)) [1..<length data]) \<and>
            length (map (\<lambda>i. (i, data ! i)) [1..<length data]) = length data - 1 \<and>
            (2 \<le> length data \<longrightarrow> map (\<lambda>i. (i, data ! i)) [1..<length data] \<noteq> []))"
proof (intro conjI impI)
  let ?trend = "map (spec_trend data alpha) [0..<length data]"
  have "filter (spec_flagged data alpha z) [1..<length data] =
      filter (\<lambda>i. fsub (data ! i) (?trend ! i) \<noteq> NaN) [1..<length data]"
    by (rule filter_cong) (simp_all add: spec_flagged_def fgt_negative_threshold [OF assms(2)])
  with anomaly_detection_refines [OF assms(1), of alpha z]
  show "\<exists>trend an. anomaly_detection data alpha z = Inr (trend, an) \<and>
      an = map (\<lambda>i. (i, data ! i))
             (filter (\<lambda>i. fsub (data ! i) (trend ! i) \<noteq> NaN) [1..<length data])"
    by simp
next
  assume dbl: "\<forall>x \<in> set data. is_double x"
  have trend: "map (spec_trend data (Finite 1)) [0..<length data] = data"
    by (rule nth_equalityI) (simp_all add: spec_trend_alpha_one [OF dbl])
  have "spec_flagged data (Finite 1) z i" if "i < length data" for i
  proof -
    from that dbl have "is_double (data ! i)" by simp
    then have "fsub (data ! i) (data ! i) = Finite 0" by (rule fsub_self)
    with that assms(2) show ?thesis
      by (simp add: spec_flagged_def spec_trend_alpha_one [OF dbl])
  qed
  then have all: "filter (spec_flagged data (Finite 1) z) [1..<length data] = [1..<length data]"
    by simp
  from anomaly_detection_refines [OF assms(1), of "Finite 1" z]
  show "anomaly_detection data (Finite 1) z =
      Inr (data, map (\<lambda>i. (i, data ! i)) [1..<length data])"
    by (simp only: trend all)
next
  show "length (map (\<lambda>i. (i, data ! i)) [1..<length data]) = length data - 1" by simp
next
  assume "2 \<le> length data"
  then show "map (\<lambda>i. (i, data ! i)) [1..<length data] \<noteq> []" by auto
qed

theorem negative_threshold_flags_all_witness:
  "[Finite 5, Finite (- 5), Finite 5] \<noteq> [] \<and> fgt (Finite 0) (Finite (- 1)) \<and>
   is_double (Finite 5) \<and> is_double (Finite (- 5)) \<and>
   (2::nat) \<le> length [Finite 5, Finite (- 5), Finite 5] \<and>
   anomaly_detection [Finite 5, Finite (- 5), Finite 5] (Finite 1) (Finite (- 1)) =
     Inr ([Finite 5, Finite (- 5), Finite 5], [(1, Finite (- 5)), (2, Finite 5)]) \<and>
   fsub (Finite (- 5)) (Finite (- 5)) \<noteq> NaN \<and> fsub (Finite 5) (Finite 5) \<noteq> NaN"
  using negative_threshold_flags_all
    [of "[Finite 5, Finite (- 5), Finite 5]" "Finite (- 1)" "Finite 1"]
  by (simp add: run_simps rnd_evals)

section \<open>Failure\<close>

text \<open>
  C6, as stated, has the function fail with an InvalidInput error on a precondition
  check. On the empty signal it raises \<^verbatim>\<open>IndexError\<close>, and not InvalidInput.
\<close>

theorem fails_with_index_error_counterexample:
  "anomaly_detection [] (Finite (1 / 2)) (Finite 8) = Inl IndexError \<and>
   anomaly_detection [] (Finite (1 / 2)) (Finite 8) \<noteq> Inl InvalidInput"
  by (simp add: anomaly_detection_def getitem_def)

text \<open>
  C6 (amended): the function raises exactly when the signal is empty, and what it raises
  is the \<^verbatim>\<open>IndexError\<close> of the subscript \<^verbatim>\<open>data[0]\<close> in its first statement, before the
  loop; it never raises InvalidInput. For every non-empty signal it returns a trend and
  anomalies, whatever alpha and the threshold are.
\<close>

theorem fails_iff_empty:
  "(anomaly_detection data alpha z = Inl IndexError) = (data = []) \<and>
   (\<exists>trend an. anomaly_detection data alpha z = Inr (trend, an)) = (data \<noteq> []) \<and>
   anomaly_detection data alpha z \<noteq> Inl InvalidInput \<and>
   (getitem data 0 = Inl IndexError) = (data = [])"
proof (cases data)
  case Nil
  then show ?thesis by (simp add: anomaly_detection_def getitem_empty)
next
  case (Cons d0 rest)
  then have "data \<noteq> []" by simp
  from anomaly_detection_refines [OF this, of alpha z] Cons show ?thesis
    by (simp add: getitem_def)
qed

text \<open>
  An empty signal; one sample; a negative alpha, and one above 1, with a negative
  threshold.
\<close>

theorem fails_iff_empty_witness:
  "anomaly_detection [] (Finite (1 / 2)) (Finite 1) = Inl IndexError \<and>
   anomaly_detection [Finite 3] (Finite (1 / 2)) (Finite 1) = Inr ([Finite 3], []) \<and>
   anomaly_detection [Finite 1, Finite 2, Finite 3] (Finite (- 2)) (Finite (- 1)) =
     Inr ([Finite 1, Finite (- 1), Finite (- 9)], [(1, Finite 2), (2, Finite 3)]) \<and>
   anomaly_detection [Finite 1, Finite 2, Finite 3] (Finite 3) (Finite (- 1)) =
     Inr ([Finite 1, Finite 4, Finite 1], [(1, Finite 2), (2, Finite 3)])"
  using fails_iff_empty [of "[]" "Finite (1 / 2)" "Finite 1"]
    fails_iff_empty [of "[Finite 3]" "Finite (1 / 2)" "Finite 1"]
  by (simp add: run_simps rnd_evals)

section \<open>A concrete run\<close>

text \<open>
  C9: on the signal \<open>[0, 0, 0, 0, 100]\<close> with \<open>alpha = 1/2\<close> and threshold 10 the function
  returns the trend \<open>[0, 0, 0, 0, 50]\<close> and the single anomaly \<open>(4, 100)\<close>.
\<close>

theorem scenario_one:
  "anomaly_detection [Finite 0, Finite 0, Finite 0, Finite 0, Finite 100]
       (Finite (1 / 2)) (Finite 10) =
     Inr ([Finite 0, Finite 0, Finite 0, Finite 0, Finite 50], [(4, Finite 100)])"
  by (simp add: run_simps rnd_evals)

end
